theory Spec2Isabelle
  imports Main "HOL-Library.Word"
begin

section \<open>MergeTreeSource: the data model\<close>

text \<open>
  The embedding follows \<^verbatim>\<open>src/Storages/MergeTree/MergeTreeSource.cpp\<close> as it is compiled
  with \<^verbatim>\<open>OS_LINUX\<close> defined. In the other build every function below coincides with its
  branch for an absent \<^verbatim>\<open>async_reading_state\<close>.
\<close>

datatype Stage = NotStarted | InProgress | IsFinished

text \<open>
  Modelled from the spec: \<^verbatim>\<open>Chunk\<close> (Processors/Chunk.h is not among the sources) is a
  sequence of rows, possibly empty; \<^verbatim>\<open>hasRows()\<close> says that there is at least one row and
  the default-constructed \<^verbatim>\<open>Chunk()\<close> has none.
\<close>

type_synonym 'r Chunk = "'r list"

definition hasRows :: "'r Chunk \<Rightarrow> bool" where
  "hasRows c = (0 < length c)"

definition Chunk_default :: "'r Chunk" where
  "Chunk_default = []"

text \<open>
  Modelled from the spec: \<^verbatim>\<open>ChunkAndProgress\<close> (declared in MergeTreeBaseSelectProcessor.h,
  not among the sources) holds the chunk and the counts of rows and bytes read; the counts
  are \<^verbatim>\<open>size_t\<close>.
\<close>

record 'r ChunkAndProgress =
  chunk :: "'r Chunk"
  num_read_rows :: "64 word"
  num_read_bytes :: "64 word"

definition ChunkAndProgress_default :: "'r ChunkAndProgress" where
  "ChunkAndProgress_default = \<lparr>chunk = Chunk_default, num_read_rows = 0, num_read_bytes = 0\<rparr>"

text \<open>
  Modelled from the spec: the readiness signal \<^verbatim>\<open>EventFD\<close> (Common/EventFD.h is not among
  the sources) supports \<^verbatim>\<open>signal()\<close> and \<^verbatim>\<open>wait-and-consume()\<close>. It is the
  counter of an eventfd: \<^verbatim>\<open>write()\<close> adds one, \<^verbatim>\<open>read()\<close> waits while the counter is
  zero, then returns the counter and resets it.
\<close>

type_synonym EventFD = nat

text \<open>
  \<^verbatim>\<open>AsyncReadingState::Control\<close>. The member \<^verbatim>\<open>chunk\<close> is named \<open>chunk_slot\<close> here,
  since \<open>chunk\<close> is the field of \<open>ChunkAndProgress\<close>. A \<^verbatim>\<open>std::exception_ptr\<close> is
  either null or holds the exception object.
\<close>

record ('r, 'e) Control =
  event :: EventFD
  stage :: Stage
  chunk_slot :: "'r ChunkAndProgress"
  exception :: "'e option"

definition Control_default :: "('r, 'e) Control" where
  "Control_default =
     \<lparr>event = 0, stage = NotStarted, chunk_slot = ChunkAndProgress_default, exception = None\<rparr>"

text \<open>
  Control blocks live in a store and are reached through \<^verbatim>\<open>std::shared_ptr\<close> handles:
  a handle is the address of the block, and \<open>use_count\<close> counts the handles to it.
\<close>

type_synonym addr = nat

text \<open>\<^verbatim>\<open>AsyncReadingState\<close>: its handle to the control block. Its \<^verbatim>\<open>callback_runner\<close>
  submits to the pool of the world below.\<close>

record AsyncReadingState =
  control :: addr

text \<open>The closure that \<^verbatim>\<open>tryGenerate\<close> builds: it captures \<^verbatim>\<open>this\<close> and the handle
  that \<^verbatim>\<open>start()\<close> returned.\<close>

datatype Job = ReadJob (captured_control: addr)

text \<open>
  What an operation does to the world outside its return value, in program order: the
  stores to a control block, the calls on its event, the copies and releases of handles,
  the call of the read algorithm, the submission of a job, and the calls of
  \<^verbatim>\<open>progress\<close> and \<^verbatim>\<open>getPort().finish()\<close>.
\<close>

datatype ('r, 'e) Effect =
    StoreChunk addr "'r ChunkAndProgress"
  | StoreException addr 'e
  | StoreStage addr Stage
  | EventWrite addr
  | EventRead addr
  | HandleCopied addr
  | HandleReleased addr
  | AlgorithmRead
  | JobSubmitted Job
  | Progress "64 word" "64 word"
  | PortFinish

text \<open>
  The source with what it acts on: the store of control blocks, the read algorithm
  (its state, of type \<open>'alg\<close>), the optional \<^verbatim>\<open>async_reading_state\<close>
  (\<open>None\<close> is the null pointer), the cancellation flag of the processor, the state of the
  output port, the jobs submitted to the background pool and not yet run, and the
  effects so far.
\<close>

record ('r, 'e, 'alg) world =
  controls :: "addr \<Rightarrow> ('r, 'e) Control"
  use_count :: "addr \<Rightarrow> nat"
  algorithm :: 'alg
  async_reading_state :: "AsyncReadingState option"
  is_cancelled :: bool
  output_finished :: bool
  pool :: "Job list"
  trace :: "('r, 'e) Effect list"

text \<open>
  How a call ends: it fails an assertion, it waits on the event (nothing has changed
  yet), it throws, or it returns.
\<close>

datatype ('e, 'a, 's) outcome =
    AssertionFailed
  | Blocked
  | Throws 'e 's
  | Returns 'a 's

definition bind :: "('e, 'a, 's) outcome \<Rightarrow> ('a \<Rightarrow> 's \<Rightarrow> ('e, 'b, 's) outcome) \<Rightarrow> ('e, 'b, 's) outcome" where
  "bind m f =
     (case m of
        AssertionFailed \<Rightarrow> AssertionFailed
      | Blocked \<Rightarrow> Blocked
      | Throws e s \<Rightarrow> Throws e s
      | Returns a s \<Rightarrow> f a s)"

definition try_catch :: "('e, 'a, 's) outcome \<Rightarrow> ('e \<Rightarrow> 's \<Rightarrow> ('e, 'a, 's) outcome) \<Rightarrow> ('e, 'a, 's) outcome" where
  "try_catch m h = (case m of Throws e s \<Rightarrow> h e s | _ \<Rightarrow> m)"

text \<open>
  Modelled from the spec: \<^verbatim>\<open>chassert\<close> (base/defines.h is not among the sources). A
  violated precondition is a fatal programming error, not a recoverable failure.
\<close>

definition chassert :: "bool \<Rightarrow> 's \<Rightarrow> ('e, unit, 's) outcome" where
  "chassert b s = (if b then Returns () s else AssertionFailed)"

section \<open>The primitive accesses\<close>

definition log :: "('r, 'e) Effect \<Rightarrow> ('r, 'e, 'alg) world \<Rightarrow> ('r, 'e, 'alg) world" where
  "log x w = w\<lparr>trace := trace w @ [x]\<rparr>"

definition store_stage :: "addr \<Rightarrow> Stage \<Rightarrow> ('r, 'e, 'alg) world \<Rightarrow> ('r, 'e, 'alg) world" where
  "store_stage a s w =
     log (StoreStage a s) (w\<lparr>controls := (controls w)(a := (controls w a)\<lparr>stage := s\<rparr>)\<rparr>)"

definition store_chunk :: "addr \<Rightarrow> 'r ChunkAndProgress \<Rightarrow> ('r, 'e, 'alg) world \<Rightarrow> ('r, 'e, 'alg) world" where
  "store_chunk a c w =
     log (StoreChunk a c) (w\<lparr>controls := (controls w)(a := (controls w a)\<lparr>chunk_slot := c\<rparr>)\<rparr>)"

definition store_exception :: "addr \<Rightarrow> 'e \<Rightarrow> ('r, 'e, 'alg) world \<Rightarrow> ('r, 'e, 'alg) world" where
  "store_exception a e w =
     log (StoreException a e)
       (w\<lparr>controls := (controls w)(a := (controls w a)\<lparr>exception := Some e\<rparr>)\<rparr>)"

text \<open>Moving out of the chunk slot leaves the chunk there without rows; the counts are
  plain integers and stay.\<close>

definition move_chunk :: "addr \<Rightarrow> ('r, 'e, 'alg) world \<Rightarrow> ('r, 'e, 'alg) world" where
  "move_chunk a w =
     w\<lparr>controls := (controls w)
        (a := (controls w a)\<lparr>chunk_slot := (chunk_slot (controls w a))\<lparr>chunk := Chunk_default\<rparr>\<rparr>)\<rparr>"

definition EventFD_write :: "addr \<Rightarrow> ('r, 'e, 'alg) world \<Rightarrow> ('r, 'e, 'alg) world" where
  "EventFD_write a w =
     log (EventWrite a)
       (w\<lparr>controls := (controls w)(a := (controls w a)\<lparr>event := event (controls w a) + 1\<rparr>)\<rparr>)"

definition EventFD_read :: "addr \<Rightarrow> ('r, 'e, 'alg) world \<Rightarrow> ('e, nat, ('r, 'e, 'alg) world) outcome" where
  "EventFD_read a w =
     (if event (controls w a) = 0 then Blocked
      else Returns (event (controls w a))
             (log (EventRead a) (w\<lparr>controls := (controls w)(a := (controls w a)\<lparr>event := 0\<rparr>)\<rparr>)))"

definition copy_handle :: "addr \<Rightarrow> ('r, 'e, 'alg) world \<Rightarrow> ('r, 'e, 'alg) world" where
  "copy_handle a w = log (HandleCopied a) (w\<lparr>use_count := (use_count w)(a := use_count w a + 1)\<rparr>)"

definition release_handle :: "addr \<Rightarrow> ('r, 'e, 'alg) world \<Rightarrow> ('r, 'e, 'alg) world" where
  "release_handle a w =
     log (HandleReleased a) (w\<lparr>use_count := (use_count w)(a := use_count w a - 1)\<rparr>)"

section \<open>AsyncReadingState and its control block\<close>

definition Control_finish :: "addr \<Rightarrow> ('r, 'e, 'alg) world \<Rightarrow> ('r, 'e, 'alg) world" where
  "Control_finish a w =
     (let w1 = store_stage a IsFinished w;
          w2 = EventFD_write a w1
      in w2)"

definition Control_setResult ::
  "addr \<Rightarrow> 'r ChunkAndProgress \<Rightarrow> ('r, 'e, 'alg) world \<Rightarrow> ('e, unit, ('r, 'e, 'alg) world) outcome" where
  "Control_setResult a chunk' w =
     bind (chassert (stage (controls w a) = InProgress) w) (\<lambda>_ w.
       let w1 = store_chunk a chunk' w
       in Returns () (Control_finish a w1))"

definition Control_setException ::
  "addr \<Rightarrow> 'e \<Rightarrow> ('r, 'e, 'alg) world \<Rightarrow> ('e, unit, ('r, 'e, 'alg) world) outcome" where
  "Control_setException a exception' w =
     bind (chassert (stage (controls w a) = InProgress) w) (\<lambda>_ w.
       let w1 = store_exception a exception' w
       in Returns () (Control_finish a w1))"

definition Control_getResult ::
  "addr \<Rightarrow> ('r, 'e, 'alg) world \<Rightarrow> ('e, 'r ChunkAndProgress, ('r, 'e, 'alg) world) outcome" where
  "Control_getResult a w =
     bind (chassert (stage (controls w a) = IsFinished) w) (\<lambda>_ w.
     bind (EventFD_read a w) (\<lambda>_ w.
       let w1 = store_stage a NotStarted w
       in (case exception (controls w1 a) of
             Some e \<Rightarrow> Throws e w1
           | None \<Rightarrow> Returns (chunk_slot (controls w1 a)) (move_chunk a w1))))"

definition start ::
  "AsyncReadingState \<Rightarrow> ('r, 'e, 'alg) world \<Rightarrow> ('e, addr, ('r, 'e, 'alg) world) outcome" where
  "start ars w =
     bind (chassert (stage (controls w (control ars)) = NotStarted) w) (\<lambda>_ w.
       let w1 = store_stage (control ars) InProgress w
       in Returns (control ars) (copy_handle (control ars) w1))"

text \<open>Modelled from the spec: the background task runner accepts a closure and runs it
  once on a worker thread, later; it returns nothing to the caller.\<close>

definition schedule ::
  "Job \<Rightarrow> ('r, 'e, 'alg) world \<Rightarrow> ('e, unit, ('r, 'e, 'alg) world) outcome" where
  "schedule job w = Returns () (log (JobSubmitted job) (w\<lparr>pool := pool w @ [job]\<rparr>))"

definition getResult ::
  "AsyncReadingState \<Rightarrow> ('r, 'e, 'alg) world \<Rightarrow> ('e, 'r ChunkAndProgress, ('r, 'e, 'alg) world) outcome" where
  "getResult ars w = Control_getResult (control ars) w"

definition getStage :: "AsyncReadingState \<Rightarrow> ('r, 'e, 'alg) world \<Rightarrow> Stage" where
  "getStage ars w = stage (controls w (control ars))"

text \<open>\<^verbatim>\<open>~AsyncReadingState\<close>: the body, then the members are destroyed, which releases
  the handle \<^verbatim>\<open>control\<close>.\<close>

definition AsyncReadingState_destroy ::
  "AsyncReadingState \<Rightarrow> ('r, 'e, 'alg) world \<Rightarrow> ('e, unit, ('r, 'e, 'alg) world) outcome" where
  "AsyncReadingState_destroy ars w =
     bind (if stage (controls w (control ars)) = InProgress
           then bind (EventFD_read (control ars) w) (\<lambda>_ w. Returns () w)
           else Returns () w) (\<lambda>_ w.
       Returns () (release_handle (control ars) w))"

section \<open>MergeTreeSource\<close>

text \<open>Modelled from the spec: the status that \<^verbatim>\<open>prepare\<close> reports
  (Processors/IProcessor.h is not among the sources).\<close>

datatype Status = Ready | Async | Finished

definition Port_finish :: "('r, 'e, 'alg) world \<Rightarrow> ('r, 'e, 'alg) world" where
  "Port_finish w = log PortFinish (w\<lparr>output_finished := True\<rparr>)"

text \<open>\<^verbatim>\<open>ISource::prepare\<close> is not among the sources: it is the parameter
  \<open>ISource_prepare\<close>.\<close>

definition prepare ::
  "(('r, 'e, 'alg) world \<Rightarrow> Status \<times> ('r, 'e, 'alg) world) \<Rightarrow> ('r, 'e, 'alg) world
     \<Rightarrow> Status \<times> ('r, 'e, 'alg) world" where
  "prepare ISource_prepare w =
     (case async_reading_state w of
        None \<Rightarrow> ISource_prepare w
      | Some ars \<Rightarrow>
          if is_cancelled w then (Finished, Port_finish w)
          else if async_reading_state w \<noteq> None \<and> getStage ars w = InProgress then (Async, w)
          else ISource_prepare w)"

text \<open>Modelled from the spec: \<^verbatim>\<open>progress\<close> (of \<^verbatim>\<open>ISource\<close>, not among the sources)
  reports the counts of rows and bytes read.\<close>

definition progress :: "64 word \<Rightarrow> 64 word \<Rightarrow> ('r, 'e, 'alg) world \<Rightarrow> ('r, 'e, 'alg) world" where
  "progress read_rows read_bytes w = log (Progress read_rows read_bytes) w"

definition reportProgress ::
  "'r ChunkAndProgress \<Rightarrow> ('r, 'e, 'alg) world \<Rightarrow> ('e, 'r Chunk option, ('r, 'e, 'alg) world) outcome" where
  "reportProgress c w =
     (let w1 = (if num_read_rows c \<noteq> 0 \<or> num_read_bytes c \<noteq> 0
                then progress (num_read_rows c) (num_read_bytes c) w else w)
      in if hasRows (chunk c) then Returns (Some (chunk c)) w1
         else Returns None w1)"

text \<open>\<^verbatim>\<open>algorithm->read()\<close>: the read algorithm is the parameter \<open>read\<close>, which from
  the state of the algorithm gives what the call throws or returns, and the new state.\<close>

definition algorithm_read ::
  "('alg \<Rightarrow> ('e + 'r ChunkAndProgress) \<times> 'alg) \<Rightarrow> ('r, 'e, 'alg) world
     \<Rightarrow> ('e, 'r ChunkAndProgress, ('r, 'e, 'alg) world) outcome" where
  "algorithm_read read w =
     (let w1 = log AlgorithmRead (w\<lparr>algorithm := snd (read (algorithm w))\<rparr>)
      in case fst (read (algorithm w)) of
           Inl e \<Rightarrow> Throws e w1
         | Inr c \<Rightarrow> Returns c w1)"

text \<open>The body of the closure, run by the worker thread. The local \<^verbatim>\<open>holder\<close> takes the
  captured handle and is destroyed when the body ends.\<close>

definition run_job ::
  "('alg \<Rightarrow> ('e + 'r ChunkAndProgress) \<times> 'alg) \<Rightarrow> Job \<Rightarrow> ('r, 'e, 'alg) world
     \<Rightarrow> ('e, unit, ('r, 'e, 'alg) world) outcome" where
  "run_job read job w =
     (let holder = captured_control job
      in bind (try_catch
                 (bind (algorithm_read read w) (\<lambda>c w. Control_setResult holder c w))
                 (\<lambda>e w. Control_setException holder e w)) (\<lambda>_ w.
           Returns () (release_handle holder w)))"

definition tryGenerate ::
  "('alg \<Rightarrow> ('e + 'r ChunkAndProgress) \<times> 'alg) \<Rightarrow> ('r, 'e, 'alg) world
     \<Rightarrow> ('e, 'r Chunk option, ('r, 'e, 'alg) world) outcome" where
  "tryGenerate read w =
     (case async_reading_state w of
        Some ars \<Rightarrow>
          if getStage ars w = IsFinished
          then bind (getResult ars w) reportProgress
          else
            bind (chassert (getStage ars w = NotStarted) w) (\<lambda>_ w.
            bind (start ars w) (\<lambda>control w.
              let job = ReadJob control
              in bind (schedule job w) (\<lambda>_ w.
                   Returns (Some Chunk_default) w)))
      | None \<Rightarrow> bind (algorithm_read read w) reportProgress)"

text \<open>\<^verbatim>\<open>onCancel\<close> forwards to the algorithm, whose \<^verbatim>\<open>cancel\<close> is the parameter
  \<open>algorithm_cancel\<close>.\<close>

definition onCancel :: "('alg \<Rightarrow> 'alg) \<Rightarrow> ('r, 'e, 'alg) world \<Rightarrow> ('r, 'e, 'alg) world" where
  "onCancel algorithm_cancel w = w\<lparr>algorithm := algorithm_cancel (algorithm w)\<rparr>"

text \<open>Modelled from the spec: \<^verbatim>\<open>cancel\<close> (of \<^verbatim>\<open>IProcessor\<close>, not among the sources)
  raises the cancellation flag and forwards the cancellation to the read algorithm.\<close>

definition cancel :: "('alg \<Rightarrow> 'alg) \<Rightarrow> ('r, 'e, 'alg) world \<Rightarrow> ('r, 'e, 'alg) world" where
  "cancel algorithm_cancel w = onCancel algorithm_cancel (w\<lparr>is_cancelled := True\<rparr>)"

text \<open>The constructor: \<open>use_asynchronous_read_from_pool\<close> is the setting of the algorithm.
  The control block of the new \<^verbatim>\<open>AsyncReadingState\<close> is allocated at address 0.\<close>

definition MergeTreeSource ::
  "bool \<Rightarrow> 'alg \<Rightarrow> ('r, 'e, 'alg) world" where
  "MergeTreeSource use_asynchronous_read_from_pool algorithm' =
     \<lparr>controls = (\<lambda>_. Control_default),
      use_count = (if use_asynchronous_read_from_pool then (\<lambda>_. 0)(0 := 1) else (\<lambda>_. 0)),
      algorithm = algorithm',
      async_reading_state =
        (if use_asynchronous_read_from_pool then Some \<lparr>control = 0\<rparr> else None),
      is_cancelled = False,
      output_finished = False,
      pool = [],
      trace = []\<rparr>"

text \<open>The world in which the caller goes on after a call: after a return, and after an
  exception, which leaves the call with the state as it is then. A failed assertion and
  a wait that has not ended give none.\<close>

fun continues :: "('e, 'a, 's) outcome \<Rightarrow> 's option" where
  "continues AssertionFailed = None"
| "continues Blocked = None"
| "continues (Throws e s) = Some s"
| "continues (Returns a s) = Some s"

text \<open>The effects that a call has added to the trace of \<open>w\<close>.\<close>

definition performed :: "('r, 'e, 'alg) world \<Rightarrow> ('e, 'a, ('r, 'e, 'alg) world) outcome \<Rightarrow> ('r, 'e) Effect list" where
  "performed w r = (case continues r of None \<Rightarrow> [] | Some w' \<Rightarrow> drop (length (trace w)) (trace w'))"

section \<open>Sequences of control-block operations\<close>

datatype ('r, 'e) Operation =
    Start
  | SetResult "'r ChunkAndProgress"
  | SetException 'e
  | GetResult

definition apply_op ::
  "addr \<Rightarrow> ('r, 'e) Operation \<Rightarrow> ('r, 'e, 'alg) world \<Rightarrow> ('r, 'e, 'alg) world option" where
  "apply_op a op w =
     (case op of
        Start \<Rightarrow> continues (start \<lparr>control = a\<rparr> w)
      | SetResult c \<Rightarrow> continues (Control_setResult a c w)
      | SetException e \<Rightarrow> continues (Control_setException a e w)
      | GetResult \<Rightarrow> continues (Control_getResult a w))"

text \<open>The worlds after each operation of a sequence; none when an operation fails its
  assertion or waits for ever.\<close>

fun run_ops ::
  "addr \<Rightarrow> ('r, 'e) Operation list \<Rightarrow> ('r, 'e, 'alg) world \<Rightarrow> ('r, 'e, 'alg) world list option" where
  "run_ops a [] w = Some []"
| "run_ops a (op # ops) w =
     (case apply_op a op w of
        None \<Rightarrow> None
      | Some w' \<Rightarrow> (case run_ops a ops w' of None \<Rightarrow> None | Some ws \<Rightarrow> Some (w' # ws)))"

text \<open>The cycle of the stage, with the operation that makes each move.\<close>

definition cycle_step :: "Stage \<Rightarrow> ('r, 'e) Operation \<Rightarrow> Stage \<Rightarrow> bool" where
  "cycle_step s op t =
     (case op of
        Start \<Rightarrow> s = NotStarted \<and> t = InProgress
      | SetResult c \<Rightarrow> s = InProgress \<and> t = IsFinished
      | SetException e \<Rightarrow> s = InProgress \<and> t = IsFinished
      | GetResult \<Rightarrow> s = IsFinished \<and> t = NotStarted)"

fun follows_cycle :: "Stage \<Rightarrow> (('r, 'e) Operation \<times> Stage) list \<Rightarrow> bool" where
  "follows_cycle s [] = True"
| "follows_cycle s ((op, t) # rest) = (cycle_step s op t \<and> follows_cycle t rest)"

fun next_stage :: "Stage \<Rightarrow> Stage" where
  "next_stage NotStarted = InProgress"
| "next_stage InProgress = IsFinished"
| "next_stage IsFinished = NotStarted"

fun stage_chain :: "Stage \<Rightarrow> Stage list \<Rightarrow> bool" where
  "stage_chain s [] = True"
| "stage_chain s (t # ts) = (t = next_stage s \<and> stage_chain t ts)"

text \<open>The values stored to the stage of the block at \<open>a\<close>, in the order of the trace.\<close>

fun stage_stores :: "addr \<Rightarrow> ('r, 'e) Effect list \<Rightarrow> Stage list" where
  "stage_stores a [] = []"
| "stage_stores a (StoreStage b s # xs) = (if b = a then s # stage_stores a xs else stage_stores a xs)"
| "stage_stores a (x # xs) = stage_stores a xs"

section \<open>Example worlds\<close>

text \<open>A read algorithm whose state is the list of the results still to come.\<close>

type_synonym script = "(string + nat ChunkAndProgress) list"

definition scripted_read :: "script \<Rightarrow> (string + nat ChunkAndProgress) \<times> script" where
  "scripted_read script =
     (case script of
        [] \<Rightarrow> (Inr ChunkAndProgress_default, [])
      | r # rest \<Rightarrow> (r, rest))"

definition five_rows :: "nat ChunkAndProgress" where
  "five_rows = \<lparr>chunk = [1, 2, 3, 4, 5], num_read_rows = 8, num_read_bytes = 64\<rparr>"

definition filtered_out :: "nat ChunkAndProgress" where
  "filtered_out = \<lparr>chunk = [], num_read_rows = 8, num_read_bytes = 64\<rparr>"

text \<open>The world after a call, for a call that returns or throws.\<close>

definition world_after :: "('e, 'a, 's) outcome \<Rightarrow> 's \<Rightarrow> 's" where
  "world_after r w = (case continues r of Some w' \<Rightarrow> w' | None \<Rightarrow> w)"

text \<open>A source with offloading, before its first cycle. Its algorithm returns five rows
  at the first read and fails at the second.\<close>

definition fresh_source :: "(nat, string, script) world" where
  "fresh_source = MergeTreeSource True [Inr five_rows, Inl ''cannot read'']"

text \<open>The same source with its first cycle in flight: \<^verbatim>\<open>tryGenerate\<close> has submitted the
  job, which has not run.\<close>

definition in_flight :: "(nat, string, script) world" where
  "in_flight = world_after (tryGenerate scripted_read fresh_source) fresh_source"

text \<open>Then the job has run to its end.\<close>

definition finished_cycle :: "(nat, string, script) world" where
  "finished_cycle = world_after (run_job scripted_read (ReadJob 0) in_flight) in_flight"

text \<open>Then \<^verbatim>\<open>tryGenerate\<close> has delivered the five rows and, called again, has started the
  second cycle, whose job has run to its end: the read has failed.\<close>

definition failed_cycle :: "(nat, string, script) world" where
  "failed_cycle =
     (let delivered = world_after (tryGenerate scripted_read finished_cycle) finished_cycle;
          second = world_after (tryGenerate scripted_read delivered) delivered
      in world_after (run_job scripted_read (ReadJob 0) second) second)"


text \<open>A default readiness determination that finds the source ready.\<close>

definition always_ready :: "(nat, string, script) world \<Rightarrow> Status \<times> (nat, string, script) world" where
  "always_ready w = (Ready, w)"


text \<open>Two cycles of the control block, the second one failing.\<close>

definition two_cycles :: "(nat, string) Operation list" where
  "two_cycles =
     [Start, SetResult five_rows, GetResult, Start, SetException ''cannot read'', GetResult]"

section \<open>JSONAsStringRowInputFormat: the data model\<close>

text \<open>
  The embedding follows \<^verbatim>\<open>readJSONObject\<close> of
  \<^verbatim>\<open>src/Processors/Formats/Impl/JSONAsStringRowInputFormat.cpp\<close>. The error codes are
  those that the file declares; an exception carries its message and its code.
\<close>

datatype ErrorCode = BAD_ARGUMENTS | INCORRECT_DATA | ILLEGAL_COLUMN

datatype Exception = Exception string ErrorCode

text \<open>
  Modelled from the spec: \<^verbatim>\<open>PeekableReadBuffer\<close> (IO/PeekableReadBuffer.h and
  IO/ReadBuffer.h are not among the sources), the buffer of the streaming scanner. It is
  modelled by what \<^verbatim>\<open>readJSONObject\<close> uses of it. The input comes in chunks:
  \<open>available\<close> holds the bytes of the available buffer from \<^verbatim>\<open>position()\<close> to
  \<^verbatim>\<open>buffer().end()\<close>, \<open>upcoming\<close> the chunks that the underlying buffer has still to
  deliver, none of them empty (a chunk is its first byte and the others), and
  \<open>since_checkpoint\<close> the bytes between the checkpoint and \<^verbatim>\<open>position()\<close>, which
  the buffer keeps when it loads the next chunk.
\<close>

record PeekableReadBuffer =
  since_checkpoint :: "char list"
  available :: "char list"
  upcoming :: "(char \<times> char list) list"

text \<open>All the bytes from \<^verbatim>\<open>position()\<close> to the end of the input.\<close>

definition stream :: "PeekableReadBuffer \<Rightarrow> char list" where
  "stream b = available b @ concat (map (\<lambda>(c, cs). c # cs) (upcoming b))"

text \<open>\<^verbatim>\<open>next()\<close> loads the next chunk and says whether there was one.\<close>

definition next_buffer :: "PeekableReadBuffer \<Rightarrow> bool \<times> PeekableReadBuffer" where
  "next_buffer b =
     (case upcoming b of
        [] \<Rightarrow> (False, b)
      | (c, cs) # rest \<Rightarrow> (True, b\<lparr>available := c # cs, upcoming := rest\<rparr>))"

text \<open>\<^verbatim>\<open>eof()\<close> is \<^verbatim>\<open>!hasPendingData() && !next()\<close>.\<close>

definition eof :: "PeekableReadBuffer \<Rightarrow> bool \<times> PeekableReadBuffer" where
  "eof b =
     (if available b \<noteq> [] then (False, b)
      else (\<not> fst (next_buffer b), snd (next_buffer b)))"

text \<open>\<open>advance n\<close> moves \<^verbatim>\<open>position()\<close> forward by \<open>n\<close> bytes inside the available
  buffer.\<close>

definition advance :: "nat \<Rightarrow> PeekableReadBuffer \<Rightarrow> PeekableReadBuffer" where
  "advance n b =
     b\<lparr>since_checkpoint := since_checkpoint b @ take n (available b), available := drop n (available b)\<rparr>"

definition setCheckpoint :: "PeekableReadBuffer \<Rightarrow> PeekableReadBuffer" where
  "setCheckpoint b = b\<lparr>since_checkpoint := []\<rparr>"

definition dropCheckpoint :: "PeekableReadBuffer \<Rightarrow> PeekableReadBuffer" where
  "dropCheckpoint b = b\<lparr>since_checkpoint := []\<rparr>"

text \<open>The bytes since the checkpoint are one list here, so there is nothing to make
  continuous.\<close>

definition makeContinuousMemoryFromCheckpointToPos :: "PeekableReadBuffer \<Rightarrow> PeekableReadBuffer" where
  "makeContinuousMemoryFromCheckpointToPos b = b"

definition rollbackToCheckpoint :: "PeekableReadBuffer \<Rightarrow> PeekableReadBuffer" where
  "rollbackToCheckpoint b =
     b\<lparr>since_checkpoint := [], available := since_checkpoint b @ available b\<rparr>"

text \<open>
  Modelled from the spec: \<^verbatim>\<open>find_first_symbols\<close> (base/find_symbols.h is not among the
  sources), the search of the scanner for the next byte that matters. It gives the
  position of the first byte of the range that is one of the symbols, as an offset from
  the begin of the range, and the end of the range when there is none.
\<close>

definition find_first_symbols :: "char list \<Rightarrow> char list \<Rightarrow> nat" where
  "find_first_symbols symbols xs = length (takeWhile (\<lambda>c. c \<notin> set symbols) xs)"

section \<open>readJSONObject\<close>

text \<open>The bytes are written by their codes where a string cannot hold them:
  \<open>CHR 0x22\<close> is the double quote, \<open>CHR 0x5C\<close> the backslash, \<open>CHR 0x7B\<close> and
  \<open>CHR 0x7D\<close> the opening and the closing brace.\<close>

text \<open>The two branches for a backslash: \<^verbatim>\<open>++buf->position(); if (!buf->eof())
  ++buf->position();\<close>.\<close>

definition skip_escaped :: "PeekableReadBuffer \<Rightarrow> PeekableReadBuffer" where
  "skip_escaped b =
     (let b1 = advance 1 b
      in if \<not> fst (eof b1) then advance 1 (snd (eof b1)) else snd (eof b1))"

text \<open>The body of the loop after the test of \<^verbatim>\<open>buf->eof()\<close>; \<open>balance\<close> is a
  \<^verbatim>\<open>size_t\<close>. It gives the balance, the flag and the buffer with which the loop goes
  on; a \<^verbatim>\<open>continue\<close> leaves the balance and the flag as they are.\<close>

definition loop_body :: "64 word \<Rightarrow> bool \<Rightarrow> PeekableReadBuffer \<Rightarrow> 64 word \<times> bool \<times> PeekableReadBuffer" where
  "loop_body balance quotes b =
     (if quotes then
        (let b1 = advance (find_first_symbols [CHR 0x22, CHR 0x5C] (available b)) b
         in if available b1 = [] then (balance, quotes, b1)
            else if hd (available b1) = CHR 0x22 then (balance, False, advance 1 b1)
            else if hd (available b1) = CHR 0x5C then (balance, quotes, skip_escaped b1)
            else (balance, quotes, b1))
      else
        (let b1 = advance (find_first_symbols [CHR 0x22, CHR 0x7B, CHR 0x7D, CHR 0x5C] (available b)) b
         in if available b1 = [] then (balance, quotes, b1)
            else if hd (available b1) = CHR 0x7B then (balance + 1, quotes, advance 1 b1)
            else if hd (available b1) = CHR 0x7D then (balance - 1, quotes, advance 1 b1)
            else if hd (available b1) = CHR 0x5C then (balance, quotes, skip_escaped b1)
            else if hd (available b1) = CHR 0x22 then (balance, True, advance 1 b1)
            else (balance, quotes, b1)))"

text \<open>\<open>consumed j b b'\<close>: from \<open>b\<close> to \<open>b'\<close> the position has moved over the next
  \<open>j\<close> bytes of the input, and they have been kept since the checkpoint.\<close>

definition consumed :: "nat \<Rightarrow> PeekableReadBuffer \<Rightarrow> PeekableReadBuffer \<Rightarrow> bool" where
  "consumed j b b' =
     (j \<le> length (stream b) \<and> stream b' = drop j (stream b)
      \<and> since_checkpoint b' = since_checkpoint b @ take j (stream b))"

lemma consumed_refl: "consumed 0 b b"
  by (simp add: consumed_def)

lemma consumed_trans: "consumed i b b' \<Longrightarrow> consumed j b' b'' \<Longrightarrow> consumed (i + j) b b''"
  by (auto simp: consumed_def take_add add.commute)

lemma consumed_eof: "consumed 0 b (snd (eof b))"
  by (auto simp: consumed_def eof_def next_buffer_def stream_def split: list.splits)

lemma eof_iff: "fst (eof b) = (stream b = [])"
  by (auto simp: eof_def next_buffer_def stream_def split: list.splits)

lemma eof_available: "\<not> fst (eof b) \<Longrightarrow> available (snd (eof b)) \<noteq> []"
  by (auto simp: eof_def next_buffer_def split: list.splits)

lemma consumed_advance: "n \<le> length (available b) \<Longrightarrow> consumed n b (advance n b)"
  by (simp add: consumed_def advance_def stream_def)

lemma available_stream: "available b \<noteq> [] \<Longrightarrow> stream b \<noteq> [] \<and> hd (stream b) = hd (available b)"
  by (simp add: stream_def)

lemma consumed_skip_escaped:
  assumes "available b \<noteq> []"
  shows "consumed (if length (stream b) = 1 then 1 else 2) b (skip_escaped b)"
proof -
  let ?b1 = "advance 1 b"
  have c1: "consumed 1 b ?b1"
    using assms consumed_advance [of 1 b] by (cases "available b") auto
  have s1: "stream ?b1 = drop 1 (stream b)"
    using c1 by (simp add: consumed_def)
  show ?thesis
  proof (cases "fst (eof ?b1)")
    case True
    then have "length (stream b) = 1"
      using s1 c1 assms available_stream [of b] by (cases "stream b") (auto simp: eof_iff)
    moreover have "consumed (1 + 0) b (snd (eof ?b1))"
      by (rule consumed_trans [OF c1 consumed_eof])
    ultimately show ?thesis
      using True by (simp add: skip_escaped_def)
  next
    case False
    then have ne: "length (stream b) \<noteq> 1"
      using s1 by (cases "stream b") (auto simp: eof_iff)
    have "consumed 1 (snd (eof ?b1)) (advance 1 (snd (eof ?b1)))"
      using eof_available [OF False] consumed_advance [of 1 "snd (eof ?b1)"]
      by (cases "available (snd (eof ?b1))") auto
    from consumed_trans [OF consumed_trans [OF c1 consumed_eof] this]
    show ?thesis
      using False ne by (simp add: skip_escaped_def numeral_2_eq_2)
  qed
qed

lemma loop_body_consumes:
  assumes w: "available b \<noteq> []"
  shows "\<exists>j. 0 < j \<and> consumed j b (snd (snd (loop_body balance quotes b)))"
proof -
  define syms where "syms = (if quotes then [CHR 0x22, CHR 0x5C] else [CHR 0x22, CHR 0x7B, CHR 0x7D, CHR 0x5C])"
  define p where "p = takeWhile (\<lambda>c. c \<notin> set syms) (available b)"
  define d where "d = dropWhile (\<lambda>c. c \<notin> set syms) (available b)"
  define b1 where "b1 = advance (find_first_symbols syms (available b)) b"
  have wb: "available b = p @ d"
    by (simp add: p_def d_def)
  have c1: "consumed (length p) b b1"
    unfolding b1_def find_first_symbols_def p_def
    by (rule consumed_advance) (simp add: length_takeWhile_le)
  have w1: "available b1 = d"
    by (simp add: b1_def advance_def find_first_symbols_def d_def dropWhile_eq_drop)
  show ?thesis
  proof (cases d)
    case Nil
    then have "p \<noteq> []" using w wb by simp
    moreover have "loop_body balance quotes b = (balance, quotes, b1)"
      using Nil w1 by (cases quotes) (simp_all add: loop_body_def b1_def syms_def Let_def)
    ultimately show ?thesis
      using c1 by (intro exI [of _ "length p"]) simp
  next
    case (Cons c d')
    have cin: "c \<in> set syms"
      using Cons hd_dropWhile [of "\<lambda>c. c \<notin> set syms" "available b"] by (simp add: d_def)
    have c12: "consumed (length p + 1) b (advance 1 b1)"
      using consumed_trans [OF c1 consumed_advance [of 1 b1]] w1 Cons by simp
    have ce: "consumed (length p + (if length (stream b1) = 1 then 1 else 2)) b (skip_escaped b1)"
      using consumed_trans [OF c1 consumed_skip_escaped [of b1]] w1 Cons by simp
    consider (quote) "c = CHR 0x22" | (esc) "c = CHR 0x5C"
      | (lbrace) "\<not> quotes" "c = CHR 0x7B" | (rbrace) "\<not> quotes" "c = CHR 0x7D"
      using cin by (auto simp: syms_def split: if_splits)
    then show ?thesis
    proof cases
      case quote
      have "loop_body balance quotes b = (balance, \<not> quotes, advance 1 b1)"
        using w1 Cons quote by (cases quotes) (simp_all add: loop_body_def b1_def syms_def Let_def)
      then show ?thesis
        using c12 by (intro exI [of _ "length p + 1"]) simp
    next
      case esc
      have "loop_body balance quotes b = (balance, quotes, skip_escaped b1)"
        using w1 Cons esc by (cases quotes) (simp_all add: loop_body_def b1_def syms_def Let_def)
      then show ?thesis
        using ce by (intro exI [of _ "length p + (if length (stream b1) = 1 then 1 else 2)"]) simp
    next
      case lbrace
      have "loop_body balance quotes b = (balance + 1, quotes, advance 1 b1)"
        using w1 Cons lbrace by (simp add: loop_body_def b1_def syms_def Let_def)
      then show ?thesis
        using c12 by (intro exI [of _ "length p + 1"]) simp
    next
      case rbrace
      have "loop_body balance quotes b = (balance - 1, quotes, advance 1 b1)"
        using w1 Cons rbrace by (simp add: loop_body_def b1_def syms_def Let_def)
      then show ?thesis
        using c12 by (intro exI [of _ "length p + 1"]) simp
    qed
  qed
qed

lemma loop_body_decreases:
  assumes "\<not> fst (eof b)"
  shows "length (stream (snd (snd (loop_body balance quotes (snd (eof b)))))) < length (stream b)"
proof -
  from loop_body_consumes [OF eof_available [OF assms], of balance quotes] obtain j where
    "0 < j" and "consumed j (snd (eof b)) (snd (snd (loop_body balance quotes (snd (eof b)))))"
    by blast
  moreover have "stream (snd (eof b)) = stream b"
    using consumed_eof [of b] by (simp add: consumed_def)
  ultimately show ?thesis
    by (auto simp: consumed_def)
qed

text \<open>The loop \<^verbatim>\<open>while (balance)\<close>. Each turn moves the position forward, so the loop
  ends.\<close>

function loop :: "64 word \<Rightarrow> bool \<Rightarrow> PeekableReadBuffer \<Rightarrow> (Exception, unit, PeekableReadBuffer) outcome" where
  "loop balance quotes b =
     (if balance = 0 then Returns () b
      else if fst (eof b)
      then Throws (Exception ''Unexpected end of file while parsing JSON object.'' INCORRECT_DATA)
             (snd (eof b))
      else (let s = loop_body balance quotes (snd (eof b))
            in loop (fst s) (fst (snd s)) (snd (snd s))))"
  by pat_completeness auto
termination
  by (relation "measure (\<lambda>(balance, quotes, b). length (stream b))")
     (simp_all add: loop_body_decreases case_prod_unfold)

declare loop.simps [simp del]

text \<open>
  \<^verbatim>\<open>readJSONObject\<close>. \<^verbatim>\<open>IColumn\<close> is not among the sources: \<^verbatim>\<open>insertData\<close>, which
  adds to the column one value made of the bytes given, is the parameter
  \<open>insertData\<close>. The state after the call, also after an exception, is the column and
  the buffer. The first test reads the byte at \<^verbatim>\<open>position()\<close> without a look at
  \<^verbatim>\<open>eof()\<close>: \<^verbatim>\<open>readRow\<close> calls the function only after \<^verbatim>\<open>!buf->eof()\<close>, which
  leaves \<open>available\<close> not empty.
\<close>

definition readJSONObject ::
  "('col \<Rightarrow> char list \<Rightarrow> 'col) \<Rightarrow> 'col \<Rightarrow> PeekableReadBuffer
     \<Rightarrow> (Exception, unit, 'col \<times> PeekableReadBuffer) outcome" where
  "readJSONObject insertData column buf =
     (let b = setCheckpoint buf;
          balance = 0;
          quotes = False
      in if hd (available b) \<noteq> CHR 0x7B
         then Throws (Exception ''JSON object must begin with '{'.'' INCORRECT_DATA)
                (column, dropCheckpoint b)
         else
           (case loop (balance + 1) quotes (advance 1 b) of
              Returns _ b1 \<Rightarrow>
                (let b2 = makeContinuousMemoryFromCheckpointToPos b1;
                     end_pos = length (since_checkpoint b2);
                     b3 = rollbackToCheckpoint b2;
                     column' = insertData column (take end_pos (available b3));
                     b4 = advance end_pos b3
                 in Returns () (column', dropCheckpoint b4))
            | Throws e b1 \<Rightarrow> Throws e (column, dropCheckpoint b1)
            | AssertionFailed \<Rightarrow> AssertionFailed
            | Blocked \<Rightarrow> Blocked))"

section \<open>The object that readJSONObject is to read\<close>

text \<open>
  The nesting of a text, byte by byte: the balance of the braces, whether the text is
  inside a double-quoted string, and whether the byte before was a backslash that
  escapes this one. A byte after such a backslash changes nothing; a double quote opens
  or closes a string; a brace counts only outside of strings.
\<close>

type_synonym nesting = "int \<times> bool \<times> bool"

fun nesting_step :: "nesting \<Rightarrow> char \<Rightarrow> nesting" where
  "nesting_step (n, q, esc) c =
     (if esc then (n, q, False)
      else if c = CHR 0x5C then (n, q, True)
      else if c = CHR 0x22 then (n, \<not> q, False)
      else if \<not> q \<and> c = CHR 0x7B then (n + 1, q, False)
      else if \<not> q \<and> c = CHR 0x7D then (n - 1, q, False)
      else (n, q, False))"

definition balance_after :: "char list \<Rightarrow> int" where
  "balance_after xs = fst (foldl nesting_step (0, False, False) xs)"

text \<open>The object that begins the input ends with byte \<open>k\<close>: the balance is back at
  zero after \<open>k\<close> bytes, and not before.\<close>

definition closes_at :: "char list \<Rightarrow> nat \<Rightarrow> bool" where
  "closes_at input k =
     (0 < k \<and> k \<le> length input \<and> balance_after (take k input) = 0
      \<and> list_all (\<lambda>j. balance_after (take j input) \<noteq> 0) [1..<k])"

text \<open>The same search as a function: the number of bytes from a given nesting until
  the balance is zero, if the input gets there.\<close>

fun shift :: "nat \<Rightarrow> nat option \<Rightarrow> nat option" where
  "shift j None = None"
| "shift j (Some k) = Some (j + k)"

fun span_from :: "nesting \<Rightarrow> char list \<Rightarrow> nat option" where
  "span_from s [] = (if fst s = 0 then Some 0 else None)"
| "span_from s (c # cs) =
     (if fst s = 0 then Some 0 else shift 1 (span_from (nesting_step s c) cs))"

text \<open>The bytes over which \<^verbatim>\<open>find_first_symbols\<close> passes, inside a string and
  outside.\<close>

definition inert :: "bool \<Rightarrow> char \<Rightarrow> bool" where
  "inert q c = (if q then c \<notin> set [CHR 0x22, CHR 0x5C]
                else c \<notin> set [CHR 0x22, CHR 0x7B, CHR 0x7D, CHR 0x5C])"

text \<open>An input in three chunks. The object has a closing brace inside a string and
  an escaped double quote, whose backslash ends the second chunk.\<close>

definition example_buffer :: PeekableReadBuffer where
  "example_buffer =
     \<lparr>since_checkpoint = ''x'',
      available = CHR 0x7B # CHR 0x22 # ''a}'',
      upcoming = [(CHR 0x22, '':'' @ [CHR 0x22, CHR 0x5C]),
                  (CHR 0x22, ''{'' @ [CHR 0x22] @ ''} ,{'')]\<rparr>"

text \<open>The first twelve bytes of this input, which are the object.\<close>

definition example_object :: "char list" where
  "example_object = CHR 0x7B # CHR 0x22 # ''a}'' @ CHR 0x22 # '':'' @ [CHR 0x22, CHR 0x5C, CHR 0x22] @ ''{'' @ [CHR 0x22] @ ''}''"

section \<open>Facts about the primitive accesses\<close>

lemmas access_defs =
  log_def store_stage_def store_chunk_def store_exception_def move_chunk_def
  EventFD_write_def EventFD_read_def copy_handle_def release_handle_def

lemmas call_defs = bind_def try_catch_def chassert_def Let_def

lemmas operation_defs =
  start_def schedule_def getResult_def getStage_def Control_setResult_def Control_setException_def
  Control_getResult_def Control_finish_def

lemmas source_defs =
  tryGenerate_def run_job_def algorithm_read_def reportProgress_def progress_def hasRows_def

lemmas example_defs =
  MergeTreeSource_def Control_default_def ChunkAndProgress_default_def Chunk_default_def
  scripted_read_def world_after_def five_rows_def

lemma fresh_source_facts:
  "stage (controls fresh_source 0) = NotStarted"
  "event (controls fresh_source 0) = 0"
  "async_reading_state fresh_source = Some \<lparr>control = 0\<rparr>"
  "is_cancelled fresh_source = False"
  "trace fresh_source = []"
  "pool fresh_source = []"
  by (simp_all add: fresh_source_def example_defs)

lemma in_flight_facts:
  "stage (controls in_flight 0) = InProgress"
  "event (controls in_flight 0) = 0"
  "async_reading_state in_flight = Some \<lparr>control = 0\<rparr>"
  "is_cancelled in_flight = False"
  "pool in_flight = [ReadJob 0]"
  "algorithm in_flight = algorithm fresh_source"
  "trace in_flight = [StoreStage 0 InProgress, HandleCopied 0, JobSubmitted (ReadJob 0)]"
  by (simp_all add: in_flight_def fresh_source_def example_defs source_defs operation_defs
      call_defs access_defs)

lemma finished_cycle_facts:
  "stage (controls finished_cycle 0) = IsFinished"
  "event (controls finished_cycle 0) = 1"
  "exception (controls finished_cycle 0) = None"
  "chunk_slot (controls finished_cycle 0) = five_rows"
  "async_reading_state finished_cycle = Some \<lparr>control = 0\<rparr>"
  "is_cancelled finished_cycle = False"
  "length (trace finished_cycle) = 8"
  by (simp_all add: finished_cycle_def in_flight_def fresh_source_def example_defs source_defs
      operation_defs call_defs access_defs)

lemma failed_cycle_facts:
  "stage (controls failed_cycle 0) = IsFinished"
  "event (controls failed_cycle 0) = 1"
  "exception (controls failed_cycle 0) = Some ''cannot read''"
  "async_reading_state failed_cycle = Some \<lparr>control = 0\<rparr>"
  by (simp_all add: failed_cycle_def finished_cycle_def in_flight_def fresh_source_def
      example_defs source_defs operation_defs call_defs access_defs)

section \<open>Progress and rows\<close>

text \<open>
  C8. For every result of a read, \<^verbatim>\<open>reportProgress\<close> returns and throws nothing; it
  yields a chunk exactly when the chunk has at least one row, and then that chunk; it
  calls \<^verbatim>\<open>progress\<close> with the two counts exactly when one of them is not zero, and
  does nothing else. So a result without rows and with a count that is not zero has
  its counts reported and yields no chunk.
\<close>

theorem reportProgress_rule:
  "\<exists>r w'. reportProgress c w = Returns r w'
     \<and> (r \<noteq> None) = (0 < length (chunk c))
     \<and> r = (if 0 < length (chunk c) then Some (chunk c) else None)
     \<and> w' = w\<lparr>trace := trace w @
           (if num_read_rows c \<noteq> 0 \<or> num_read_bytes c \<noteq> 0
            then [Progress (num_read_rows c) (num_read_bytes c)] else [])\<rparr>"
  by (simp add: reportProgress_def progress_def log_def hasRows_def)

theorem reportProgress_rule_witness:
  "performed fresh_source (reportProgress filtered_out fresh_source) = [Progress 8 64]
   \<and> (\<exists>w'. reportProgress filtered_out fresh_source = Returns None w')"
  using reportProgress_rule [of filtered_out fresh_source]
  by (auto simp: performed_def filtered_out_def)

section \<open>The cycle of the stage\<close>

lemma apply_op_step:
  assumes "apply_op a op w = Some w'"
  shows "cycle_step (stage (controls w a)) op (stage (controls w' a))
     \<and> (\<exists>new. trace w' = trace w @ new \<and> stage_stores a new = [stage (controls w' a)])"
  using assms
  by (cases op)
     (auto simp: apply_op_def cycle_step_def operation_defs call_defs access_defs
        split: if_splits option.splits)

lemma stage_stores_append: "stage_stores a (xs @ ys) = stage_stores a xs @ stage_stores a ys"
  by (induction a xs rule: stage_stores.induct) auto

lemma cycle_step_next: "cycle_step s op t \<Longrightarrow> t = next_stage s"
  by (cases op) (auto simp: cycle_step_def)

text \<open>
  C1. Take any sequence of \<^verbatim>\<open>start\<close>, \<^verbatim>\<open>setResult\<close>, \<^verbatim>\<open>setException\<close> and
  \<^verbatim>\<open>getResult\<close> on one control block in which every call passes its assertion and
  comes back. Then every operation moves the stage one step along the cycle, and by the
  operation of that step: \<^verbatim>\<open>start\<close> from NotStarted to InProgress,
  \<^verbatim>\<open>setResult\<close> and \<^verbatim>\<open>setException\<close> from InProgress to IsFinished,
  \<^verbatim>\<open>getResult\<close> from IsFinished to NotStarted. The values stored to the stage
  during the whole sequence, one after the other, are each the successor of the one before.
\<close>

theorem stage_moves_along_cycle:
  assumes "run_ops a ops w = Some ws"
  shows "length ws = length ops
     \<and> follows_cycle (stage (controls w a)) (zip ops (map (\<lambda>u. stage (controls u a)) ws))
     \<and> (\<exists>new. trace (last (w # ws)) = trace w @ new
            \<and> stage_chain (stage (controls w a)) (stage_stores a new))"
  using assms
proof (induction ops arbitrary: w ws)
  case Nil
  then show ?case by simp
next
  case (Cons op ops)
  from Cons.prems obtain w' ws' where
    step: "apply_op a op w = Some w'" and rest: "run_ops a ops w' = Some ws'" and ws: "ws = w' # ws'"
    by (auto split: option.splits)
  from apply_op_step [OF step] obtain new1 where
    cyc: "cycle_step (stage (controls w a)) op (stage (controls w' a))" and
    tr1: "trace w' = trace w @ new1" and st1: "stage_stores a new1 = [stage (controls w' a)]"
    by blast
  from Cons.IH [OF rest] obtain new2 where
    len: "length ws' = length ops" and
    fol: "follows_cycle (stage (controls w' a)) (zip ops (map (\<lambda>u. stage (controls u a)) ws'))" and
    tr2: "trace (last (w' # ws')) = trace w' @ new2" and
    ch2: "stage_chain (stage (controls w' a)) (stage_stores a new2)"
    by blast
  have "trace (last (w # ws)) = trace w @ (new1 @ new2)"
    using tr1 tr2 ws by simp
  moreover have "stage_chain (stage (controls w a)) (stage_stores a (new1 @ new2))"
    using st1 ch2 cycle_step_next [OF cyc] by (simp add: stage_stores_append)
  ultimately show ?case
    using len fol cyc ws by auto
qed

theorem stage_moves_along_cycle_witness:
  "map (\<lambda>u. stage (controls u 0)) (the (run_ops 0 two_cycles fresh_source))
     = [InProgress, IsFinished, NotStarted, InProgress, IsFinished, NotStarted]
   \<and> follows_cycle NotStarted
        (zip two_cycles (map (\<lambda>u. stage (controls u 0)) (the (run_ops 0 two_cycles fresh_source))))"
proof -
  have run: "run_ops 0 two_cycles fresh_source \<noteq> None"
    and st: "map (\<lambda>u. stage (controls u 0)) (the (run_ops 0 two_cycles fresh_source))
       = [InProgress, IsFinished, NotStarted, InProgress, IsFinished, NotStarted]"
    by (simp_all add: two_cycles_def apply_op_def operation_defs call_defs access_defs
        fresh_source_def example_defs)
  then obtain ws where ws: "run_ops 0 two_cycles fresh_source = Some ws"
    by blast
  from stage_moves_along_cycle [OF ws] st ws show ?thesis
    by (simp add: fresh_source_facts)
qed

section \<open>The operations of the control block\<close>

text \<open>
  C2. When the stage is IsFinished, \<^verbatim>\<open>getResult\<close> waits for the event: while the
  event has not been written the call has not come back and nothing has changed. Once
  the event has been written, \<^verbatim>\<open>getResult\<close> reads it, which resets it, then stores
  NotStarted to the stage, and then rethrows the exception of the error slot if there is
  one and returns the chunk slot otherwise. The stage is NotStarted in both cases. The
  exception rethrown is the one that \<^verbatim>\<open>setException\<close> has stored: after
  \<^verbatim>\<open>setException\<close> with \<open>e\<close>, \<^verbatim>\<open>getResult\<close> throws \<open>e\<close> and leaves the stage
  NotStarted.
\<close>

theorem getResult_returns_or_rethrows:
  assumes "stage (controls w a) = IsFinished"
  shows "(event (controls w a) = 0 \<longrightarrow> Control_getResult a w = Blocked)
     \<and> (event (controls w a) \<noteq> 0 \<longrightarrow>
          Control_getResult a w =
            (let w' = w\<lparr>controls := (controls w)(a := (controls w a)\<lparr>event := 0, stage := NotStarted\<rparr>),
                        trace := trace w @ [EventRead a, StoreStage a NotStarted]\<rparr>
             in case exception (controls w a) of
                  Some e \<Rightarrow> Throws e w'
                | None \<Rightarrow> Returns (chunk_slot (controls w a)) (move_chunk a w')))
     \<and> (\<forall>w'. continues (Control_getResult a w) = Some w' \<longrightarrow>
           stage (controls w' a) = NotStarted \<and> event (controls w' a) = 0)
     \<and> (\<forall>u e. stage (controls u a) = InProgress \<longrightarrow>
           (\<exists>u1 u2. Control_setException a e u = Returns () u1
              \<and> Control_getResult a u1 = Throws e u2
              \<and> stage (controls u2 a) = NotStarted))"
  using assms
  by (simp add: operation_defs call_defs access_defs split: option.splits)

theorem getResult_returns_or_rethrows_witness:
  "stage (controls failed_cycle 0) = IsFinished
   \<and> (\<exists>w'. Control_getResult 0 failed_cycle = Throws ''cannot read'' w'
         \<and> stage (controls w' 0) = NotStarted)"
proof -
  have fin: "stage (controls failed_cycle 0) = IsFinished"
    and ev: "event (controls failed_cycle 0) \<noteq> 0"
    by (simp_all add: failed_cycle_facts)
  from getResult_returns_or_rethrows [OF fin, THEN conjunct2, THEN conjunct1] ev
  have "Control_getResult 0 failed_cycle = Throws ''cannot read''
          (failed_cycle\<lparr>controls := (controls failed_cycle)
               (0 := (controls failed_cycle 0)\<lparr>event := 0, stage := NotStarted\<rparr>),
             trace := trace failed_cycle @ [EventRead 0, StoreStage 0 NotStarted]\<rparr>)"
    by (simp add: failed_cycle_facts)
  with fin show ?thesis
    by simp
qed

text \<open>
  C6. When the stage is InProgress, \<^verbatim>\<open>setResult\<close> stores the chunk slot and leaves
  the error slot as it is, \<^verbatim>\<open>setException\<close> stores the error slot and leaves the
  chunk slot as it is; each then stores IsFinished to the stage and then writes the
  event, in this order, and does nothing else.
\<close>

theorem setResult_setException_order:
  assumes "stage (controls w a) = InProgress"
  shows "Control_setResult a c w = Returns ()
           (w\<lparr>controls := (controls w)(a := (controls w a)
                 \<lparr>chunk_slot := c, stage := IsFinished, event := event (controls w a) + 1\<rparr>),
              trace := trace w @ [StoreChunk a c, StoreStage a IsFinished, EventWrite a]\<rparr>)
     \<and> Control_setException a e w = Returns ()
           (w\<lparr>controls := (controls w)(a := (controls w a)
                 \<lparr>exception := Some e, stage := IsFinished, event := event (controls w a) + 1\<rparr>),
              trace := trace w @ [StoreException a e, StoreStage a IsFinished, EventWrite a]\<rparr>)"
  using assms
  by (simp add: operation_defs call_defs access_defs)

theorem setResult_setException_order_witness:
  "stage (controls in_flight 0) = InProgress
   \<and> performed in_flight (Control_setResult 0 five_rows in_flight)
       = [StoreChunk 0 five_rows, StoreStage 0 IsFinished, EventWrite 0]
   \<and> performed in_flight (Control_setException 0 ''cannot read'' in_flight)
       = [StoreException 0 ''cannot read'', StoreStage 0 IsFinished, EventWrite 0]"
proof -
  have inp: "stage (controls in_flight 0) = InProgress"
    by (simp add: in_flight_facts)
  from setResult_setException_order [OF inp, of five_rows "''cannot read''"] inp show ?thesis
    by (simp add: performed_def)
qed

text \<open>
  C9. Each operation of the control block fails its assertion when it is called in a
  stage other than the one it requires: \<^verbatim>\<open>getResult\<close> outside IsFinished,
  \<^verbatim>\<open>start\<close> outside NotStarted, \<^verbatim>\<open>setResult\<close> and \<^verbatim>\<open>setException\<close> outside
  InProgress. A failed assertion is the end of the call: it neither returns nor throws.
\<close>

theorem violated_precondition_fails_assertion:
  "(stage (controls w a) \<noteq> IsFinished \<longrightarrow> Control_getResult a w = AssertionFailed)
   \<and> (stage (controls w (control ars)) \<noteq> NotStarted \<longrightarrow> start ars w = AssertionFailed)
   \<and> (stage (controls w a) \<noteq> InProgress \<longrightarrow>
        Control_setResult a c w = AssertionFailed \<and> Control_setException a e w = AssertionFailed)"
  by (simp add: operation_defs call_defs)

theorem violated_precondition_fails_assertion_witness:
  "Control_getResult 0 in_flight = AssertionFailed
   \<and> start \<lparr>control = 0\<rparr> in_flight = AssertionFailed
   \<and> Control_setResult 0 five_rows finished_cycle = AssertionFailed
   \<and> Control_setException 0 ''cannot read'' finished_cycle = AssertionFailed"
  using violated_precondition_fails_assertion [of in_flight 0 "\<lparr>control = 0\<rparr>"]
    violated_precondition_fails_assertion [of finished_cycle 0 "\<lparr>control = 0\<rparr>" five_rows "''cannot read''"]
  by (simp add: in_flight_facts finished_cycle_facts)

text \<open>
  C7. \<^verbatim>\<open>~AsyncReadingState\<close> reads the event exactly when the stage is InProgress at
  that moment: then it waits while the event has not been written, and once it has,
  reads it and then releases its handle to the control block. When the stage is
  NotStarted or IsFinished it releases the handle and does nothing else.
\<close>

theorem destroy_waits_iff_in_progress:
  "((AsyncReadingState_destroy ars w = Blocked
       \<or> EventRead (control ars) \<in> set (performed w (AsyncReadingState_destroy ars w)))
      = (stage (controls w (control ars)) = InProgress))
   \<and> (stage (controls w (control ars)) = InProgress \<and> event (controls w (control ars)) = 0 \<longrightarrow>
        AsyncReadingState_destroy ars w = Blocked)
   \<and> (stage (controls w (control ars)) = InProgress \<and> event (controls w (control ars)) \<noteq> 0 \<longrightarrow>
        AsyncReadingState_destroy ars w = Returns ()
          (w\<lparr>controls := (controls w)(control ars := (controls w (control ars))\<lparr>event := 0\<rparr>),
             use_count := (use_count w)(control ars := use_count w (control ars) - 1),
             trace := trace w @ [EventRead (control ars), HandleReleased (control ars)]\<rparr>))
   \<and> (stage (controls w (control ars)) \<noteq> InProgress \<longrightarrow>
        AsyncReadingState_destroy ars w = Returns ()
          (w\<lparr>use_count := (use_count w)(control ars := use_count w (control ars) - 1),
             trace := trace w @ [HandleReleased (control ars)]\<rparr>))"
  by (simp add: AsyncReadingState_destroy_def performed_def call_defs access_defs)

theorem destroy_waits_iff_in_progress_witness:
  "AsyncReadingState_destroy \<lparr>control = 0\<rparr> in_flight = Blocked
   \<and> performed finished_cycle (AsyncReadingState_destroy \<lparr>control = 0\<rparr> finished_cycle)
       = [HandleReleased 0]"
  using destroy_waits_iff_in_progress [of "\<lparr>control = 0\<rparr>" in_flight]
    destroy_waits_iff_in_progress [of "\<lparr>control = 0\<rparr>" finished_cycle]
  by (simp add: in_flight_facts finished_cycle_facts performed_def)

section \<open>The source\<close>

text \<open>
  C3. With offloading and the stage NotStarted, \<^verbatim>\<open>tryGenerate\<close> stores InProgress to
  the stage, takes one more handle to the control block, submits to the pool the job
  that holds this handle, and returns an engaged optional with a chunk without rows. It
  does nothing else: the read algorithm is not called and its state is the same. The
  job, run while the stage is InProgress, calls the read algorithm; when the read
  returns, it stores the result, stores IsFinished and writes the event; when the read
  throws, it stores the exception, stores IsFinished and writes the event; then it
  releases its handle.
\<close>

theorem tryGenerate_offloads_read:
  assumes "async_reading_state w = Some ars" and "stage (controls w (control ars)) = NotStarted"
  shows "tryGenerate read w = Returns (Some Chunk_default)
           (w\<lparr>controls := (controls w)(control ars := (controls w (control ars))\<lparr>stage := InProgress\<rparr>),
              use_count := (use_count w)(control ars := use_count w (control ars) + 1),
              pool := pool w @ [ReadJob (control ars)],
              trace := trace w @ [StoreStage (control ars) InProgress, HandleCopied (control ars),
                                  JobSubmitted (ReadJob (control ars))]\<rparr>)
     \<and> (\<forall>u. stage (controls u (control ars)) = InProgress \<longrightarrow>
           run_job read (ReadJob (control ars)) u =
            (case fst (read (algorithm u)) of
               Inr c \<Rightarrow> Returns ()
                 (u\<lparr>controls := (controls u)(control ars := (controls u (control ars))
                        \<lparr>chunk_slot := c, stage := IsFinished,
                           event := event (controls u (control ars)) + 1\<rparr>),
                    use_count := (use_count u)(control ars := use_count u (control ars) - 1),
                    algorithm := snd (read (algorithm u)),
                    trace := trace u @ [AlgorithmRead, StoreChunk (control ars) c,
                       StoreStage (control ars) IsFinished, EventWrite (control ars),
                       HandleReleased (control ars)]\<rparr>)
             | Inl e \<Rightarrow> Returns ()
                 (u\<lparr>controls := (controls u)(control ars := (controls u (control ars))
                        \<lparr>exception := Some e, stage := IsFinished,
                           event := event (controls u (control ars)) + 1\<rparr>),
                    use_count := (use_count u)(control ars := use_count u (control ars) - 1),
                    algorithm := snd (read (algorithm u)),
                    trace := trace u @ [AlgorithmRead, StoreException (control ars) e,
                       StoreStage (control ars) IsFinished, EventWrite (control ars),
                       HandleReleased (control ars)]\<rparr>)))"
  using assms
  by (simp add: source_defs operation_defs call_defs access_defs split: sum.splits)

theorem tryGenerate_offloads_read_witness:
  "(\<exists>w'. tryGenerate scripted_read fresh_source = Returns (Some []) w')
   \<and> performed fresh_source (tryGenerate scripted_read fresh_source)
       = [StoreStage 0 InProgress, HandleCopied 0, JobSubmitted (ReadJob 0)]
   \<and> performed in_flight (run_job scripted_read (ReadJob 0) in_flight)
       = [AlgorithmRead, StoreChunk 0 five_rows, StoreStage 0 IsFinished, EventWrite 0,
          HandleReleased 0]"
proof -
  have ars: "async_reading_state fresh_source = Some \<lparr>control = 0\<rparr>"
    and st: "stage (controls fresh_source (control \<lparr>control = 0\<rparr>)) = NotStarted"
    by (simp_all add: fresh_source_facts)
  have inp: "stage (controls in_flight 0) = InProgress"
    and alg: "algorithm in_flight = [Inr five_rows, Inl ''cannot read'']"
    by (simp_all add: in_flight_facts fresh_source_def MergeTreeSource_def)
  from tryGenerate_offloads_read [OF ars st, of scripted_read] inp alg show ?thesis
    by (simp add: performed_def Chunk_default_def scripted_read_def)
qed



text \<open>
  C4, as the code has it. With offloading, \<^verbatim>\<open>cancel\<close> raises the cancellation flag
  and leaves the stage as it is. While the flag is up, \<^verbatim>\<open>prepare\<close> finishes the output
  port and reports Finished in every stage, InProgress too; it leaves the flag and the
  stage as they are, and so does the job of the cycle in flight when it runs, so every
  later call reports Finished as well. \<^verbatim>\<open>prepare\<close> reports Async in the stage
  InProgress only while the flag is down.
\<close>

theorem prepare_after_cancel:
  assumes "async_reading_state w = Some ars"
  shows "is_cancelled (cancel algorithm_cancel w)
     \<and> async_reading_state (cancel algorithm_cancel w) = Some ars
     \<and> getStage ars (cancel algorithm_cancel w) = getStage ars w
     \<and> (is_cancelled w \<longrightarrow>
          prepare D w = (Finished, Port_finish w)
          \<and> is_cancelled (Port_finish w)
          \<and> async_reading_state (Port_finish w) = Some ars
          \<and> getStage ars (Port_finish w) = getStage ars w)
     \<and> (is_cancelled w \<longrightarrow>
          (\<forall>read job u. continues (run_job read job w) = Some u \<longrightarrow>
             is_cancelled u \<and> async_reading_state u = Some ars))
     \<and> (\<not> is_cancelled w \<and> getStage ars w = InProgress \<longrightarrow> prepare D w = (Async, w))"
  using assms
  by (auto simp: cancel_def onCancel_def prepare_def Port_finish_def source_defs
      operation_defs call_defs access_defs split: sum.splits if_splits)

theorem prepare_after_cancel_witness:
  "getStage \<lparr>control = 0\<rparr> (cancel (\<lambda>a. a) finished_cycle) = IsFinished
   \<and> fst (prepare always_ready (cancel (\<lambda>a. a) finished_cycle)) = Finished"
proof -
  have ars: "async_reading_state finished_cycle = Some \<lparr>control = 0\<rparr>"
    by (simp add: finished_cycle_facts)
  have ars': "async_reading_state (cancel (\<lambda>a. a) finished_cycle) = Some \<lparr>control = 0\<rparr>"
    using prepare_after_cancel [OF ars] by simp
  from prepare_after_cancel [OF ars, of "\<lambda>a. a"] prepare_after_cancel [OF ars', of "\<lambda>a. a" always_ready]
  show ?thesis
    by (simp add: getStage_def finished_cycle_facts)
qed

text \<open>
  The claim C4 as it is written fails while the cycle is in flight: cancellation is
  requested in the stage InProgress, the job has not run, and \<^verbatim>\<open>prepare\<close> reports
  Finished, not Async.
\<close>

theorem prepare_cancelled_in_flight:
  "getStage \<lparr>control = 0\<rparr> (cancel (\<lambda>a. a) in_flight) = InProgress
   \<and> pool (cancel (\<lambda>a. a) in_flight) = [ReadJob 0]
   \<and> fst (prepare always_ready (cancel (\<lambda>a. a) in_flight)) = Finished
   \<and> fst (prepare always_ready (cancel (\<lambda>a. a) in_flight)) \<noteq> Async"
  by (simp add: prepare_def cancel_def onCancel_def getStage_def in_flight_facts)

section \<open>readJSONObject reads the object\<close>

lemma shift_0 [simp]: "shift 0 x = x"
  by (cases x) simp_all

lemma shift_shift [simp]: "shift i (shift j x) = shift (i + j) x"
  by (cases x) simp_all

lemma inert_step: "inert q c \<Longrightarrow> nesting_step (n, q, False) c = (n, q, False)"
  by (cases q) (simp_all add: inert_def)

lemma span_from_inert:
  assumes "n \<noteq> 0" and "\<forall>c \<in> set p. inert q c"
  shows "span_from (n, q, False) (p @ ys) = shift (length p) (span_from (n, q, False) ys)"
  using assms
  by (induction p) (simp_all add: inert_step del: nesting_step.simps)

lemma span_from_escape:
  assumes "n \<noteq> 0"
  shows "span_from (n, q, False) (CHR 0x5C # ys)
     = shift (if length ys = 0 then 1 else 2) (span_from (n, q, False) (drop 1 ys))"
  using assms by (cases ys) (auto simp: numeral_2_eq_2)

lemma loop_body_spec:
  assumes w: "available b \<noteq> []" and nz: "balance \<noteq> 0"
    and bound: "unat balance + length (stream b) < 2 ^ 64"
  shows "\<exists>j. 0 < j \<and> consumed j b (snd (snd (loop_body balance quotes b)))
     \<and> span_from (uint balance, quotes, False) (stream b)
        = shift j
            (span_from (uint (fst (loop_body balance quotes b)), fst (snd (loop_body balance quotes b)), False)
               (stream (snd (snd (loop_body balance quotes b)))))
     \<and> unat (fst (loop_body balance quotes b)) + length (stream (snd (snd (loop_body balance quotes b))))
         < 2 ^ 64"
proof -
  define syms where "syms = (if quotes then [CHR 0x22, CHR 0x5C] else [CHR 0x22, CHR 0x7B, CHR 0x7D, CHR 0x5C])"
  define p where "p = takeWhile (\<lambda>c. c \<notin> set syms) (available b)"
  define d where "d = dropWhile (\<lambda>c. c \<notin> set syms) (available b)"
  define rest where "rest = concat (map (\<lambda>(c, cs). c # cs) (upcoming b))"
  define b1 where "b1 = advance (find_first_symbols syms (available b)) b"
  have n0: "uint balance \<noteq> 0"
    using nz by (simp add: uint_0_iff)
  have wb: "available b = p @ d"
    by (simp add: p_def d_def)
  have sb: "stream b = p @ d @ rest"
    by (simp add: stream_def wb rest_def)
  have c1: "consumed (length p) b b1"
    unfolding b1_def find_first_symbols_def p_def
    by (rule consumed_advance) (simp add: length_takeWhile_le)
  have w1: "available b1 = d"
    by (simp add: b1_def advance_def find_first_symbols_def d_def dropWhile_eq_drop)
  have s1: "stream b1 = d @ rest"
    using c1 by (simp add: consumed_def sb p_def)
  have pin: "\<forall>c \<in> set p. inert quotes c"
    by (auto simp: p_def syms_def inert_def dest: set_takeWhileD)
  have skip: "span_from (uint balance, quotes, False) (stream b)
      = shift (length p) (span_from (uint balance, quotes, False) (d @ rest))"
    unfolding sb by (rule span_from_inert [OF n0 pin])
  show ?thesis
  proof (cases d)
    case Nil
    then have "p \<noteq> []" using w wb by simp
    moreover have "loop_body balance quotes b = (balance, quotes, b1)"
      using Nil w1 by (cases quotes) (simp_all add: loop_body_def b1_def syms_def Let_def)
    ultimately show ?thesis
      using c1 skip s1 bound Nil sb by (intro exI [of _ "length p"]) simp
  next
    case (Cons c d')
    have cin: "c \<in> set syms"
      using Cons hd_dropWhile [of "\<lambda>c. c \<notin> set syms" "available b"] by (simp add: d_def)
    have c2: "consumed 1 b1 (advance 1 b1)"
      using consumed_advance [of 1 b1] w1 Cons by simp
    have c12: "consumed (length p + 1) b (advance 1 b1)"
      by (rule consumed_trans [OF c1 c2])
    have s2: "stream (advance 1 b1) = d' @ rest"
      using c2 s1 Cons by (simp add: consumed_def)
    have len: "length (stream b) = length p + Suc (length d' + length rest)"
      by (simp add: sb Cons)
    consider (quote) "c = CHR 0x22" | (esc) "c = CHR 0x5C"
      | (lbrace) "\<not> quotes" "c = CHR 0x7B" | (rbrace) "\<not> quotes" "c = CHR 0x7D"
      using cin by (auto simp: syms_def split: if_splits)
    then show ?thesis
    proof cases
      case quote
      have lb: "loop_body balance quotes b = (balance, \<not> quotes, advance 1 b1)"
        using w1 Cons quote by (cases quotes) (simp_all add: loop_body_def b1_def syms_def Let_def)
      have "span_from (uint balance, quotes, False) (d @ rest)
          = shift 1 (span_from (uint balance, \<not> quotes, False) (d' @ rest))"
        using n0 Cons quote by simp
      then show ?thesis
        using c12 skip s2 bound len lb
        by (intro exI [of _ "length p + 1"]) simp
    next
      case esc
      have lb: "loop_body balance quotes b = (balance, quotes, skip_escaped b1)"
        using w1 Cons esc by (cases quotes) (simp_all add: loop_body_def b1_def syms_def Let_def)
      let ?j = "(if length (stream b1) = 1 then 1 else 2) :: nat"
      have ce: "consumed ?j b1 (skip_escaped b1)"
        using consumed_skip_escaped [of b1] w1 Cons by simp
      have ct: "consumed (length p + ?j) b (skip_escaped b1)"
        by (rule consumed_trans [OF c1 ce])
      have se: "stream (skip_escaped b1) = drop 1 (d' @ rest)"
        using ce s1 Cons by (auto simp: consumed_def split: if_splits)
      have "span_from (uint balance, quotes, False) (d @ rest)
          = shift ?j (span_from (uint balance, quotes, False) (drop 1 (d' @ rest)))"
        using span_from_escape [OF n0, of quotes "d' @ rest"] Cons esc s1 by simp
      then show ?thesis
        using ct skip se bound len lb
        by (intro exI [of _ "length p + ?j"]) auto
    next
      case lbrace
      have lb: "loop_body balance quotes b = (balance + 1, quotes, advance 1 b1)"
        using w1 Cons lbrace by (cases quotes) (simp_all add: loop_body_def b1_def syms_def Let_def)
      have u1: "unat (balance + 1) = unat balance + 1"
        using bound len by (simp add: unat_word_ariths unat_mod_distrib)
      have "uint (balance + 1) = int (unat (balance + 1))"
        by simp
      also have "\<dots> = int (unat balance + 1)"
        by (simp only: u1)
      also have "\<dots> = uint balance + 1"
        by simp
      finally have un: "uint (balance + 1) = uint balance + 1" .
      have "span_from (uint balance, quotes, False) (d @ rest)
          = shift 1 (span_from (uint balance + 1, quotes, False) (d' @ rest))"
        using n0 Cons lbrace by simp
      then show ?thesis
        using c12 skip s2 bound len lb un u1
        by (intro exI [of _ "length p + 1"]) simp
    next
      case rbrace
      have lb: "loop_body balance quotes b = (balance - 1, quotes, advance 1 b1)"
        using w1 Cons rbrace by (cases quotes) (simp_all add: loop_body_def b1_def syms_def Let_def)
      have u1: "unat (balance - 1) = unat balance - 1"
        by (simp add: unat_minus_one nz)
      have u2: "unat balance \<noteq> 0"
        using nz by (simp add: unat_eq_0)
      have "uint (balance - 1) = int (unat (balance - 1))"
        by simp
      also have "\<dots> = int (unat balance - 1)"
        by (simp only: u1)
      also have "\<dots> = uint balance - 1"
        using u2 by (simp add: of_nat_diff)
      finally have un: "uint (balance - 1) = uint balance - 1" .
      have "span_from (uint balance, quotes, False) (d @ rest)
          = shift 1 (span_from (uint balance - 1, quotes, False) (d' @ rest))"
        using n0 Cons rbrace by simp
      then show ?thesis
        using c12 skip s2 bound len lb un u1
        by (intro exI [of _ "length p + 1"]) simp
    qed
  qed
qed

lemma span_from_zero: "span_from (0, q, e) xs = Some 0"
  by (cases xs) simp_all

lemma loop_refines:
  assumes "unat balance + length (stream b) < 2 ^ 64"
  shows "case span_from (uint balance, quotes, False) (stream b) of
           None \<Rightarrow> \<exists>b'. loop balance quotes b
               = Throws (Exception ''Unexpected end of file while parsing JSON object.'' INCORRECT_DATA) b'
         | Some k \<Rightarrow> \<exists>b'. loop balance quotes b = Returns () b' \<and> consumed k b b'"
  using assms
proof (induction balance quotes b rule: loop.induct)
  case (1 balance quotes b)
  show ?case
  proof (cases "balance = 0")
    case True
    then show ?thesis
      by (simp add: loop.simps span_from_zero consumed_refl)
  next
    case nz: False
    then have n0: "uint balance \<noteq> 0"
      by (simp add: uint_0_iff)
    show ?thesis
    proof (cases "fst (eof b)")
      case True
      then have "stream b = []"
        by (simp add: eof_iff)
      then show ?thesis
        using nz n0 True by (simp add: loop.simps)
    next
      case False
      define b0 where "b0 = snd (eof b)"
      define s where "s = loop_body balance quotes b0"
      have c0: "consumed 0 b b0"
        unfolding b0_def by (rule consumed_eof)
      then have s0: "stream b0 = stream b"
        by (simp add: consumed_def)
      have w0: "available b0 \<noteq> []"
        unfolding b0_def by (rule eof_available [OF False])
      have bound0: "unat balance + length (stream b0) < 2 ^ 64"
        using "1.prems" s0 by simp
      from loop_body_spec [OF w0 nz bound0, of quotes] obtain j where
        j: "0 < j" and cj: "consumed j b0 (snd (snd s))"
        and sp: "span_from (uint balance, quotes, False) (stream b0)
           = shift j (span_from (uint (fst s), fst (snd s), False) (stream (snd (snd s))))"
        and bound': "unat (fst s) + length (stream (snd (snd s))) < 2 ^ 64"
        unfolding s_def by blast
      have unfold: "loop balance quotes b = loop (fst s) (fst (snd s)) (snd (snd s))"
        using nz False by (subst loop.simps) (simp add: s_def b0_def Let_def)
      have cb: "consumed j b (snd (snd s))"
        using consumed_trans [OF c0 cj] by simp
      from "1.IH" [OF nz False s_def [unfolded b0_def] bound']
      have IH: "case span_from (uint (fst s), fst (snd s), False) (stream (snd (snd s))) of
           None \<Rightarrow> \<exists>b'. loop (fst s) (fst (snd s)) (snd (snd s))
               = Throws (Exception ''Unexpected end of file while parsing JSON object.'' INCORRECT_DATA) b'
         | Some k \<Rightarrow> \<exists>b'. loop (fst s) (fst (snd s)) (snd (snd s)) = Returns () b'
               \<and> consumed k (snd (snd s)) b'" .
      show ?thesis
      proof (cases "span_from (uint (fst s), fst (snd s), False) (stream (snd (snd s)))")
        case None
        then show ?thesis
          using IH sp s0 unfold by simp
      next
        case (Some k)
        then obtain b' where "loop (fst s) (fst (snd s)) (snd (snd s)) = Returns () b'"
          and "consumed k (snd (snd s)) b'"
          using IH by auto
        then show ?thesis
          using Some sp s0 unfold consumed_trans [OF cb] by auto
      qed
    qed
  qed
qed

lemma span_from_Some:
  "span_from s xs = Some k \<Longrightarrow>
     k \<le> length xs \<and> fst (foldl nesting_step s (take k xs)) = 0
     \<and> (\<forall>j<k. fst (foldl nesting_step s (take j xs)) \<noteq> 0)"
proof (induction xs arbitrary: s k)
  case Nil
  then show ?case by (simp split: if_splits)
next
  case (Cons c cs)
  show ?case
  proof (cases "fst s = 0")
    case True
    then show ?thesis using Cons.prems by simp
  next
    case False
    then obtain k' where k': "span_from (nesting_step s c) cs = Some k'" and k: "k = Suc k'"
      using Cons.prems by (cases "span_from (nesting_step s c) cs") auto
    from Cons.IH [OF k'] have
      "k' \<le> length cs" "fst (foldl nesting_step (nesting_step s c) (take k' cs)) = 0"
      "\<forall>j<k'. fst (foldl nesting_step (nesting_step s c) (take j cs)) \<noteq> 0"
      by auto
    then show ?thesis
      using False k by (auto simp: less_Suc_eq_0_disj)
  qed
qed

lemma span_from_None:
  "span_from s xs = None \<Longrightarrow> j \<le> length xs \<Longrightarrow> fst (foldl nesting_step s (take j xs)) \<noteq> 0"
proof (induction xs arbitrary: s j)
  case Nil
  then show ?case by (simp split: if_splits)
next
  case (Cons c cs)
  then have nz: "fst s \<noteq> 0" and rest: "span_from (nesting_step s c) cs = None"
    by (auto split: if_splits elim: shift.elims)
  show ?case
  proof (cases j)
    case 0
    then show ?thesis using nz by simp
  next
    case (Suc j')
    then show ?thesis
      using Cons.IH [OF rest, of j'] Cons.prems(2) by simp
  qed
qed

lemma balance_after_Cons:
  "balance_after (CHR 0x7B # xs) = fst (foldl nesting_step (1, False, False) xs)"
  by (simp add: balance_after_def)

lemma closes_at_unique:
  assumes "closes_at input k1" and "closes_at input k2"
  shows "k1 = k2"
proof -
  have "\<not> k1 < k2"
    using assms by (auto simp: closes_at_def list_all_iff)
  moreover have "\<not> k2 < k1"
    using assms by (auto simp: closes_at_def list_all_iff)
  ultimately show ?thesis
    by simp
qed

lemma span_from_closes:
  assumes "span_from (1, False, False) cs = Some k'"
  shows "closes_at (CHR 0x7B # cs) (Suc k')"
proof -
  from span_from_Some [OF assms] have
    le: "k' \<le> length cs" and z: "fst (foldl nesting_step (1, False, False) (take k' cs)) = 0"
    and nz: "\<forall>j<k'. fst (foldl nesting_step (1, False, False) (take j cs)) \<noteq> 0"
    by auto
  have "balance_after (take j (CHR 0x7B # cs)) \<noteq> 0" if "j \<in> set [1..<Suc k']" for j
  proof -
    from that have "0 < j" "j < Suc k'"
      by auto
    then obtain j' where "j = Suc j'" "j' < k'"
      by (cases j) auto
    then show ?thesis
      using nz by (simp add: balance_after_Cons)
  qed
  then show ?thesis
    using le z unfolding closes_at_def list_all_iff
    by (simp add: balance_after_Cons)
qed

lemma span_from_never_closes:
  assumes "span_from (1, False, False) cs = None"
  shows "\<not> closes_at (CHR 0x7B # cs) k"
proof
  assume c: "closes_at (CHR 0x7B # cs) k"
  then obtain j where "k = Suc j" "j \<le> length cs"
    by (cases k) (auto simp: closes_at_def)
  with c span_from_None [OF assms, of j] show False
    by (simp add: closes_at_def balance_after_Cons)
qed

lemma nesting_step_lower: "fst s - 1 \<le> fst (nesting_step s c)"
  by (cases s) auto

lemma span_from_positive:
  "0 \<le> fst s \<Longrightarrow> span_from s xs = Some k \<Longrightarrow> j < k
     \<Longrightarrow> 0 < fst (foldl nesting_step s (take j xs))"
proof (induction xs arbitrary: s k j)
  case Nil
  then show ?case by (simp split: if_splits)
next
  case (Cons c cs)
  from Cons.prems have nz: "fst s \<noteq> 0"
    by (auto split: if_splits)
  then obtain k' where k': "span_from (nesting_step s c) cs = Some k'" and k: "k = Suc k'"
    using Cons.prems by (cases "span_from (nesting_step s c) cs") auto
  have pos: "0 < fst s"
    using nz Cons.prems(1) by simp
  show ?case
  proof (cases j)
    case 0
    then show ?thesis using pos by simp
  next
    case (Suc j')
    have "0 \<le> fst (nesting_step s c)"
      using pos nesting_step_lower [of s c] by simp
    from Cons.IH [OF this k', of j'] Suc Cons.prems(3) k show ?thesis
      by simp
  qed
qed

lemma step_to_zero:
  assumes "0 < fst s" and "fst (nesting_step s c) = 0"
  shows "c = CHR 0x7D"
  using assms by (cases s) (auto split: if_splits)

lemma closes_at_span_from:
  assumes "closes_at (CHR 0x7B # cs) k"
  shows "\<exists>k'. k = Suc k' \<and> span_from (1, False, False) cs = Some k'"
proof (cases "span_from (1, False, False) cs")
  case None
  then show ?thesis
    using span_from_never_closes assms by blast
next
  case (Some k')
  then show ?thesis
    using closes_at_unique [OF assms span_from_closes [OF Some]] by simp
qed

lemma closes_at_last:
  assumes "closes_at input k" and "hd input = CHR 0x7B"
  shows "last (take k input) = CHR 0x7D"
proof -
  from assms have "input \<noteq> []"
    by (auto simp: closes_at_def)
  with assms(2) obtain cs where input: "input = CHR 0x7B # cs"
    by (cases input) auto
  from closes_at_span_from [OF assms(1) [unfolded input]] obtain k' where
    k: "k = Suc k'" and sp: "span_from (1, False, False) cs = Some k'"
    by blast
  from span_from_Some [OF sp] have le: "k' \<le> length cs"
    and z: "fst (foldl nesting_step (1, False, False) (take k' cs)) = 0"
    by auto
  have "k' \<noteq> 0"
    using z by (cases k') auto
  then obtain m where m: "k' = Suc m"
    by (cases k') auto
  have t: "take k' cs = take m cs @ [cs ! m]"
    using m le by (simp add: take_Suc_conv_app_nth)
  have "0 < fst (foldl nesting_step (1, False, False) (take m cs))"
    using span_from_positive [OF _ sp, of m] m by simp
  moreover have "fst (nesting_step (foldl nesting_step (1, False, False) (take m cs)) (cs ! m)) = 0"
    using z unfolding t by simp
  ultimately have "cs ! m = CHR 0x7D"
    by (rule step_to_zero)
  then show ?thesis
    using t k input m by simp
qed

lemma readJSONObject_loop:
  assumes w: "available buf \<noteq> []" and h: "hd (stream buf) = CHR 0x7B"
    and bound: "length (stream buf) < 2 ^ 64"
  shows "case span_from (1, False, False) (tl (stream buf)) of
           None \<Rightarrow> \<exists>b'. readJSONObject insertData column buf
               = Throws (Exception ''Unexpected end of file while parsing JSON object.'' INCORRECT_DATA)
                   (column, b')
         | Some k' \<Rightarrow> \<exists>b'. readJSONObject insertData column buf
               = Returns () (insertData column (take (Suc k') (stream buf)), b')
               \<and> stream b' = drop (Suc k') (stream buf)"
proof -
  define b where "b = setCheckpoint buf"
  define b0 where "b0 = advance 1 b"
  have sb: "stream b = stream buf" and wb: "available b = available buf"
    and cb: "since_checkpoint b = []"
    by (simp_all add: b_def setCheckpoint_def stream_def)
  have hw: "hd (available b) = CHR 0x7B"
    using w h wb available_stream [of buf] by simp
  have c0: "consumed 1 b b0"
    unfolding b0_def using consumed_advance [of 1 b] w wb by (cases "available buf") auto
  have s0: "stream b0 = tl (stream buf)"
    using c0 sb by (simp add: consumed_def drop_Suc)
  have k0: "since_checkpoint b0 = take 1 (stream buf)"
    using c0 sb cb by (simp add: consumed_def)
  have ne: "stream buf \<noteq> []"
    using w available_stream by blast
  have bound0: "unat (1 :: 64 word) + length (stream b0) < 2 ^ 64"
    using bound ne s0 by (cases "stream buf") auto
  have unfold: "readJSONObject insertData column buf =
      (case loop 1 False b0 of
         Returns _ b1 \<Rightarrow>
           Returns () (insertData column (take (length (since_checkpoint b1))
               (since_checkpoint b1 @ available b1)),
             dropCheckpoint (advance (length (since_checkpoint b1)) (rollbackToCheckpoint b1)))
       | Throws e b1 \<Rightarrow> Throws e (column, dropCheckpoint b1)
       | AssertionFailed \<Rightarrow> AssertionFailed
       | Blocked \<Rightarrow> Blocked)"
    using hw
    by (cases "loop 1 False (advance 1 b)")
       (simp_all add: readJSONObject_def Let_def b_def [symmetric] b0_def
          makeContinuousMemoryFromCheckpointToPos_def rollbackToCheckpoint_def)
  from loop_refines [OF bound0, of False] have sr:
    "case span_from (1, False, False) (tl (stream buf)) of
       None \<Rightarrow> \<exists>b'. loop 1 False b0
           = Throws (Exception ''Unexpected end of file while parsing JSON object.'' INCORRECT_DATA) b'
     | Some k \<Rightarrow> \<exists>b'. loop 1 False b0 = Returns () b' \<and> consumed k b0 b'"
    by (simp add: s0)
  show ?thesis
  proof (cases "span_from (1, False, False) (tl (stream buf))")
    case None
    then show ?thesis
      using sr unfold by auto
  next
    case (Some k')
    then obtain b1 where sc: "loop 1 False b0 = Returns () b1" and c1: "consumed k' b0 b1"
      using sr by auto
    have since: "since_checkpoint b1 = take (Suc k') (stream buf)"
      using c1 k0 s0 ne by (cases "stream buf") (auto simp: consumed_def)
    have st: "stream b1 = drop (Suc k') (stream buf)"
      using c1 s0 ne by (cases "stream buf") (auto simp: consumed_def)
    have fin: "stream (dropCheckpoint (advance (length (since_checkpoint b1)) (rollbackToCheckpoint b1)))
        = stream b1"
      by (simp add: dropCheckpoint_def advance_def rollbackToCheckpoint_def stream_def)
    show ?thesis
      using Some sc unfold since st fin by simp
  qed
qed

text \<open>
  C10. Let the buffer have a current byte, and let the input from there on be shorter
  than \<open>2 ^ 64\<close> bytes, so that the balance cannot wrap around. When the current byte
  is not an opening brace, \<^verbatim>\<open>readJSONObject\<close> throws INCORRECT_DATA and the column is
  as it was. When it is one and the balance never comes back to zero before the input
  ends, \<^verbatim>\<open>readJSONObject\<close> throws INCORRECT_DATA and the column is as it was. When the
  balance comes back to zero after \<open>k\<close> bytes, and not before, \<^verbatim>\<open>readJSONObject\<close>
  returns, has inserted into the column these \<open>k\<close> bytes, which begin with the
  opening brace and end with a closing brace, and leaves the buffer at the byte after
  them. The balance counts a brace only outside of double-quoted strings and never the
  byte after a backslash. How the input is cut into chunks makes no difference.
\<close>

theorem readJSONObject_extracts_object:
  assumes "available buf \<noteq> []" and "length (stream buf) < 2 ^ 64"
  shows
    "(hd (stream buf) \<noteq> CHR 0x7B \<longrightarrow>
        (\<exists>b'. readJSONObject insertData column buf
           = Throws (Exception ''JSON object must begin with '{'.'' INCORRECT_DATA) (column, b')))
     \<and> (hd (stream buf) = CHR 0x7B \<and> (\<forall>k. \<not> closes_at (stream buf) k) \<longrightarrow>
        (\<exists>b'. readJSONObject insertData column buf
           = Throws (Exception ''Unexpected end of file while parsing JSON object.'' INCORRECT_DATA)
               (column, b')))
     \<and> (\<forall>k. hd (stream buf) = CHR 0x7B \<and> closes_at (stream buf) k \<longrightarrow>
        (\<exists>b'. readJSONObject insertData column buf
           = Returns () (insertData column (take k (stream buf)), b')
           \<and> stream b' = drop k (stream buf))
        \<and> hd (take k (stream buf)) = CHR 0x7B \<and> last (take k (stream buf)) = CHR 0x7D)"
proof -
  have ne: "stream buf \<noteq> []" and hd_eq: "hd (available buf) = hd (stream buf)"
    using assms(1) available_stream [of buf] by simp_all
  have first: "hd (stream buf) \<noteq> CHR 0x7B \<Longrightarrow>
      \<exists>b'. readJSONObject insertData column buf
         = Throws (Exception ''JSON object must begin with '{'.'' INCORRECT_DATA) (column, b')"
    using hd_eq by (simp add: readJSONObject_def setCheckpoint_def Let_def)
  have rest: "(case span_from (1, False, False) (tl (stream buf)) of
           None \<Rightarrow> \<exists>b'. readJSONObject insertData column buf
               = Throws (Exception ''Unexpected end of file while parsing JSON object.'' INCORRECT_DATA)
                   (column, b')
         | Some k' \<Rightarrow> \<exists>b'. readJSONObject insertData column buf
               = Returns () (insertData column (take (Suc k') (stream buf)), b')
               \<and> stream b' = drop (Suc k') (stream buf))"
    if "hd (stream buf) = CHR 0x7B"
    using readJSONObject_loop [OF assms(1) that assms(2)] .
  have split: "stream buf = CHR 0x7B # tl (stream buf)" if "hd (stream buf) = CHR 0x7B"
    using ne that by (cases "stream buf") auto
  have second: "\<exists>b'. readJSONObject insertData column buf
           = Throws (Exception ''Unexpected end of file while parsing JSON object.'' INCORRECT_DATA)
               (column, b')"
    if h: "hd (stream buf) = CHR 0x7B" and never: "\<forall>k. \<not> closes_at (stream buf) k"
  proof (cases "span_from (1, False, False) (tl (stream buf))")
    case None
    then show ?thesis using rest [OF h] by simp
  next
    case (Some k')
    from span_from_closes [OF Some] split [OF h] never show ?thesis
      by metis
  qed
  have third: "(\<exists>b'. readJSONObject insertData column buf
           = Returns () (insertData column (take k (stream buf)), b')
           \<and> stream b' = drop k (stream buf))
        \<and> hd (take k (stream buf)) = CHR 0x7B \<and> last (take k (stream buf)) = CHR 0x7D"
    if h: "hd (stream buf) = CHR 0x7B" and c: "closes_at (stream buf) k" for k
  proof (cases "span_from (1, False, False) (tl (stream buf))")
    case None
    from span_from_never_closes [OF None, of k] split [OF h] c show ?thesis
      by metis
  next
    case (Some k')
    have "closes_at (stream buf) (Suc k')"
      using span_from_closes [OF Some] split [OF h] by metis
    then have "k = Suc k'"
      using c closes_at_unique by blast
    moreover have "hd (take k (stream buf)) = CHR 0x7B"
      using h c ne by (cases "stream buf"; cases k) (auto simp: closes_at_def)
    ultimately show ?thesis
      using rest [OF h] Some closes_at_last [OF c h] by simp
  qed
  show ?thesis
    using first second third by blast
qed

lemma example_stream:
  "stream example_buffer = example_object @ '' ,{''"
  by (simp add: stream_def example_buffer_def example_object_def)

lemma example_closes: "closes_at (stream example_buffer) 12"
  unfolding example_stream
  by (simp add: closes_at_def balance_after_def example_object_def upt_rec)

theorem readJSONObject_extracts_object_witness:
  "(\<exists>b'. readJSONObject (\<lambda>col x. col @ [x]) [''first''] example_buffer
        = Returns () ([''first'', example_object], b')
        \<and> stream b' = '' ,{'')
   \<and> last example_object = CHR 0x7D"
proof -
  have w: "available example_buffer \<noteq> []"
    by (simp add: example_buffer_def)
  have len: "length (stream example_buffer) < 2 ^ 64"
    by (simp add: example_stream example_object_def)
  have h: "hd (stream example_buffer) = CHR 0x7B"
    by (simp add: example_stream example_object_def)
  have t: "take 12 (stream example_buffer) = example_object"
    and d: "drop 12 (stream example_buffer) = '' ,{''"
    by (simp_all add: example_stream example_object_def)
  from readJSONObject_extracts_object [OF w len, of "\<lambda>col x. col @ [x]" "[''first'']"]
  have "(\<exists>b'. readJSONObject (\<lambda>col x. col @ [x]) [''first''] example_buffer
           = Returns () ([''first''] @ [take 12 (stream example_buffer)], b')
           \<and> stream b' = drop 12 (stream example_buffer))
        \<and> hd (take 12 (stream example_buffer)) = CHR 0x7B
        \<and> last (take 12 (stream example_buffer)) = CHR 0x7D"
    using h example_closes by blast
  then show ?thesis
    unfolding t d by simp
qed

end
